theory Spec2Isabelle
  imports Main "HOL-Library.Multiset" "HOL-Library.Extended_Nat"
begin

section \<open>Errors of the interpreter\<close>

text \<open>
  The exceptions the modelled functions can raise. A function that can raise returns
  \<open>py_error + 'a\<close>, with \<open>Inl\<close> for the exception.
\<close>

datatype py_error = IndexError | ZeroDivisionError | TypeError | RecursionError

section \<open>Graph (DSA/Data Structure/7\_graphs/simple.py)\<close>

text \<open>
  \<open>graph_dict\<close> is a dict from a node label to the list of its adjacent labels. The
  code never iterates over the dict itself, only over the adjacency lists, so the dict
  is a map and the adjacency lists keep their order.
\<close>

record graph =
  edges :: "(string \<times> string) list"
  graph_dict :: "string \<rightharpoonup> string list"

definition routes :: "(string \<times> string) list" where
  "routes =
     [(''Mumbai'', ''Paris''),
      (''Mumbai'', ''Dubai''),
      (''Paris'', ''Dubai''),
      (''Paris'', ''New York''),
      (''Dubai'', ''New York''),
      (''New York'', ''Toronto'')]"

text \<open>One round of the constructor's loop over the edges.\<close>

definition add_edge :: "(string \<rightharpoonup> string list) \<Rightarrow> string \<times> string \<Rightarrow> (string \<rightharpoonup> string list)" where
  "add_edge d e =
     (case e of (start, dest) \<Rightarrow>
        (case d start of
           Some adj \<Rightarrow> d(start \<mapsto> adj @ [dest])
         | None \<Rightarrow> d(start \<mapsto> [dest])))"

definition Graph :: "(string \<times> string) list \<Rightarrow> graph" where
  "Graph es = \<lparr>edges = es, graph_dict = foldl add_edge Map.empty es\<rparr>"

text \<open>
  The loop \<open>for node in graph_dict[start]\<close> of \<open>get_all_paths\<close>: \<open>f\<close> is the
  recursive call on one adjacent node, \<open>temp_paths\<close> the accumulator. An exception in
  a recursive call ends the loop.
\<close>

fun collect_paths ::
  "(string \<Rightarrow> py_error + string list list) \<Rightarrow> string list \<Rightarrow> string list list
     \<Rightarrow> py_error + string list list" where
  "collect_paths f [] temp_paths = Inr temp_paths"
| "collect_paths f (node # rest) temp_paths =
     (case f node of
        Inl e \<Rightarrow> Inl e
      | Inr new_paths \<Rightarrow> collect_paths f rest (temp_paths @ new_paths))"

text \<open>
  \<open>get_all_paths\<close> recurses without a visited set, so on a cyclic graph the recursion
  never ends by itself: the interpreter raises RecursionError once the call stack is
  deeper than its limit. The first argument is the number of nested calls the
  interpreter still allows. A call that gives \<open>Inl RecursionError\<close> for every depth
  never returns a value.
\<close>

fun get_all_paths ::
  "nat \<Rightarrow> graph \<Rightarrow> string \<Rightarrow> string \<Rightarrow> string list \<Rightarrow> py_error + string list list" where
  "get_all_paths 0 g start dest path0 = Inl RecursionError"
| "get_all_paths (Suc depth) g start dest path0 =
     (let path = path0 @ [start] in
      if start = dest then Inr [path]
      else if start \<notin> dom (graph_dict g) then Inr []
      else (case graph_dict g start of
              None \<Rightarrow> Inr []
            | Some adj \<Rightarrow>
                if length adj = 0 then Inr []
                else collect_paths (\<lambda>node. get_all_paths depth g node dest path) adj []))"

text \<open>
  The scan of \<open>find_shortest_path\<close> over \<open>range(len(all_paths))\<close>: the state is
  \<open>(shortest_index, shortest_length)\<close>, starting at \<open>(None, float('inf'))\<close>.
\<close>

definition shortest_step ::
  "string list list \<Rightarrow> nat option \<times> enat \<Rightarrow> nat \<Rightarrow> nat option \<times> enat" where
  "shortest_step all_paths st path_index =
     (case st of (shortest_index, shortest_length) \<Rightarrow>
        if enat (length (all_paths ! path_index)) < shortest_length
        then (Some path_index, enat (length (all_paths ! path_index)))
        else (shortest_index, shortest_length))"

definition shortest_scan :: "string list list \<Rightarrow> nat option \<times> enat" where
  "shortest_scan all_paths =
     foldl (shortest_step all_paths) (None, \<infinity>) [0 ..< length all_paths]"

definition find_shortest_path ::
  "nat \<Rightarrow> graph \<Rightarrow> string \<Rightarrow> string \<Rightarrow> py_error + string list" where
  "find_shortest_path depth g start dest =
     (if start = dest then Inr []
      else (case get_all_paths depth g start dest [] of
              Inl e \<Rightarrow> Inl e
            | Inr all_paths \<Rightarrow>
                if all_paths \<noteq> [] then
                  (case fst (shortest_scan all_paths) of
                     None \<Rightarrow> Inl TypeError
                   | Some shortest_index \<Rightarrow> Inr (all_paths ! shortest_index))
                else Inr []))"

text \<open>A two-node cycle, for the behaviour of the enumeration on cyclic input.\<close>

definition cyclic_edges :: "(string \<times> string) list" where
  "cyclic_edges = [(''A'', ''B''), (''B'', ''A'')]"

section \<open>BST (DSA/Data Structure/6\_trees/bst.py)\<close>

text \<open>
  A \<open>BST\<close> object holds \<open>data\<close> and two children, each another \<open>BST\<close> object or
  \<open>None\<close>.
\<close>

datatype BST = BST (data: int) (left: "BST option") (right: "BST option")

text \<open>
  \<open>insert\<close> mutates the tree in place and returns nothing; the model returns the tree
  after the call. \<open>not data\<close> holds of the integer 0 only, and a \<open>BST\<close> object is
  always truthy, so \<open>if self.left\<close> tests the child against \<open>None\<close>.
\<close>

fun insert_bst :: "BST \<Rightarrow> int \<Rightarrow> BST" where
  "insert_bst (BST d l r) v =
     (if v = 0 then BST d l r
      else if d = v then BST d l r
      else if v < d then
        (case l of
           Some t \<Rightarrow> BST d (Some (insert_bst t v)) r
         | None \<Rightarrow> BST d (Some (BST v None None)) r)
      else
        (case r of
           Some t \<Rightarrow> BST d l (Some (insert_bst t v))
         | None \<Rightarrow> BST d l (Some (BST v None None))))"

text \<open>
  The inner function \<open>_inorder\<close> of \<open>inorder\<close> prints the values it visits; the model
  returns the printed values in order.
\<close>

fun inorder_visit :: "BST option \<Rightarrow> int list" where
  "inorder_visit None = []"
| "inorder_visit (Some (BST d l r)) = inorder_visit l @ [d] @ inorder_visit r"

definition inorder :: "BST \<Rightarrow> int list" where
  "inorder self = inorder_visit (Some self)"

text \<open>A tree made by the constructor and a sequence of \<open>insert\<close> calls.\<close>

definition build :: "int \<Rightarrow> int list \<Rightarrow> BST" where
  "build rt vs = foldl insert_bst (BST rt None None) vs"

text \<open>
  The search-tree invariant: every value of the left subtree is below the node's value,
  every value of the right subtree above it.
\<close>

fun bst_inv :: "BST option \<Rightarrow> bool" where
  "bst_inv None = True"
| "bst_inv (Some (BST d l r)) =
     (bst_inv l \<and> bst_inv r \<and> list_all (\<lambda>x. x < d) (inorder_visit l)
        \<and> list_all (\<lambda>x. d < x) (inorder_visit r))"

section \<open>HashMap (DSA/Data Structure/5.\_hash\_map.py)\<close>

text \<open>
  Keys are hashable values: integers and strings. \<open>current.key == index\<close> in \<open>get\<close>
  compares a key with an integer: an integer key equals it when the numbers agree, a
  string key never does.
\<close>

datatype pykey = IntKey int | StrKey string

fun key_eq_int :: "pykey \<Rightarrow> int \<Rightarrow> bool" where
  "key_eq_int (IntKey i) j = (i = j)"
| "key_eq_int (StrKey s) j = False"

text \<open>
  A bucket is a chain of nodes linked by \<open>next\<close>, \<open>None\<close> when empty: the list of the
  nodes' \<open>(key, value)\<close> pairs from the head on. No node belongs to two chains.
\<close>

type_synonym 'v chain = "(pykey \<times> 'v) list"

record 'v HashMap =
  size_hm :: int
  buckets :: "'v chain list"

text \<open>\<open>[None] * size\<close> is the empty list for a negative \<open>size\<close>.\<close>

definition HashMap_init :: "int \<Rightarrow> 'v HashMap" where
  "HashMap_init n = \<lparr>size_hm = n, buckets = replicate (nat n) []\<rparr>"

text \<open>
  \<open>_hash\<close>: the builtin \<open>hash\<close> is a parameter \<open>pyhash\<close> of the model. The remainder
  takes the sign of the divisor, as \<open>mod\<close> on \<open>int\<close> does, and a zero divisor raises.
\<close>

definition hash_index :: "(pykey \<Rightarrow> int) \<Rightarrow> 'v HashMap \<Rightarrow> pykey \<Rightarrow> py_error + int" where
  "hash_index pyhash self key =
     (if size_hm self = 0 then Inl ZeroDivisionError else Inr (pyhash key mod size_hm self))"

text \<open>
  The position a list index stands for: a negative index counts from the end, an index
  out of range raises.
\<close>

definition list_pos :: "'a list \<Rightarrow> int \<Rightarrow> py_error + nat" where
  "list_pos xs i =
     (if 0 \<le> i \<and> i < int (length xs) then Inr (nat i)
      else if i < 0 \<and> - int (length xs) \<le> i then Inr (nat (int (length xs) + i))
      else Inl IndexError)"

text \<open>
  The loop of \<open>put\<close> over the chain: the first node with the key gets the new value
  (\<open>Some\<close> of the chain after the assignment); \<open>None\<close> when the loop ends without a
  match.
\<close>

fun chain_put :: "'v chain \<Rightarrow> pykey \<Rightarrow> 'v \<Rightarrow> 'v chain option" where
  "chain_put [] key val = None"
| "chain_put ((k, v) # rest) key val =
     (if k = key then Some ((k, val) # rest)
      else (case chain_put rest key val of
              None \<Rightarrow> None
            | Some rest' \<Rightarrow> Some ((k, v) # rest')))"

definition put :: "(pykey \<Rightarrow> int) \<Rightarrow> 'v HashMap \<Rightarrow> pykey \<Rightarrow> 'v \<Rightarrow> py_error + 'v HashMap" where
  "put pyhash self key val =
     (case hash_index pyhash self key of
        Inl e \<Rightarrow> Inl e
      | Inr index \<Rightarrow>
          (case list_pos (buckets self) index of
             Inl e \<Rightarrow> Inl e
           | Inr pos \<Rightarrow>
               (let head = buckets self ! pos in
                case chain_put head key val of
                  Some chain' \<Rightarrow> Inr (self\<lparr>buckets := (buckets self)[pos := chain']\<rparr>)
                | None \<Rightarrow> Inr (self\<lparr>buckets := (buckets self)[pos := (key, val) # head]\<rparr>))))"

text \<open>The loop of \<open>get\<close>: each node's key is compared with \<open>index\<close>.\<close>

fun chain_get :: "'v chain \<Rightarrow> int \<Rightarrow> 'v option" where
  "chain_get [] index = None"
| "chain_get ((k, v) # rest) index =
     (if key_eq_int k index then Some v else chain_get rest index)"

definition get :: "(pykey \<Rightarrow> int) \<Rightarrow> 'v HashMap \<Rightarrow> pykey \<Rightarrow> py_error + 'v option" where
  "get pyhash self key =
     (case hash_index pyhash self key of
        Inl e \<Rightarrow> Inl e
      | Inr index \<Rightarrow>
          (case list_pos (buckets self) index of
             Inl e \<Rightarrow> Inl e
           | Inr pos \<Rightarrow> Inr (chain_get (buckets self ! pos) index)))"

text \<open>
  The loop of \<open>remove\<close>: the first node with the key is unlinked (\<open>Some\<close> of the chain
  without it); \<open>None\<close> when no node has the key.
\<close>

fun chain_remove :: "'v chain \<Rightarrow> pykey \<Rightarrow> ('v chain) option" where
  "chain_remove [] key = None"
| "chain_remove ((k, v) # rest) key =
     (if k = key then Some rest
      else (case chain_remove rest key of
              None \<Rightarrow> None
            | Some rest' \<Rightarrow> Some ((k, v) # rest')))"

definition remove :: "(pykey \<Rightarrow> int) \<Rightarrow> 'v HashMap \<Rightarrow> pykey \<Rightarrow> py_error + bool \<times> 'v HashMap" where
  "remove pyhash self key =
     (case hash_index pyhash self key of
        Inl e \<Rightarrow> Inl e
      | Inr index \<Rightarrow>
          (case list_pos (buckets self) index of
             Inl e \<Rightarrow> Inl e
           | Inr pos \<Rightarrow>
               (case chain_remove (buckets self ! pos) key of
                  Some chain' \<Rightarrow> Inr (True, self\<lparr>buckets := (buckets self)[pos := chain']\<rparr>)
                | None \<Rightarrow> Inr (False, self))))"

text \<open>A sequence of \<open>put\<close> calls and a sequence of \<open>remove\<close> calls; an exception ends it.\<close>

fun put_all :: "(pykey \<Rightarrow> int) \<Rightarrow> 'v HashMap \<Rightarrow> (pykey \<times> 'v) list \<Rightarrow> py_error + 'v HashMap" where
  "put_all pyhash self [] = Inr self"
| "put_all pyhash self ((k, v) # kvs) =
     (case put pyhash self k v of
        Inl e \<Rightarrow> Inl e
      | Inr self' \<Rightarrow> put_all pyhash self' kvs)"

fun remove_all :: "(pykey \<Rightarrow> int) \<Rightarrow> 'v HashMap \<Rightarrow> pykey list \<Rightarrow> py_error + 'v HashMap" where
  "remove_all pyhash self [] = Inr self"
| "remove_all pyhash self (k # ks) =
     (case remove pyhash self k of
        Inl e \<Rightarrow> Inl e
      | Inr (found, self') \<Rightarrow> remove_all pyhash self' ks)"

text \<open>
  The invariant of a map made by the constructor with a positive size, \<open>put\<close> and
  \<open>remove\<close>: one bucket per index, no key twice in a chain, every key in the bucket of
  its hash.
\<close>

definition hm_inv :: "(pykey \<Rightarrow> int) \<Rightarrow> 'v HashMap \<Rightarrow> bool" where
  "hm_inv pyhash self \<longleftrightarrow>
     0 < size_hm self \<and> length (buckets self) = nat (size_hm self) \<and>
     list_all
       (\<lambda>i. distinct (map fst (buckets self ! i)) \<and>
            list_all (\<lambda>k. nat (pyhash k mod size_hm self) = i) (map fst (buckets self ! i)))
       [0 ..< length (buckets self)]"

definition has_key :: "(pykey \<Rightarrow> int) \<Rightarrow> 'v HashMap \<Rightarrow> pykey \<Rightarrow> bool" where
  "has_key pyhash self k \<longleftrightarrow> k \<in> fst ` set (buckets self ! nat (pyhash k mod size_hm self))"

text \<open>
  A hash function for the examples: an integer hashes to itself (as small integers do
  in CPython), a string to its length.
\<close>

fun sample_hash :: "pykey \<Rightarrow> int" where
  "sample_hash (IntKey i) = i"
| "sample_hash (StrKey s) = int (length s)"

section \<open>MinHeap (DSA/Data Structure/6\_trees/heap.py)\<close>

record MinHeap =
  heap :: "int list"

definition MinHeap_init :: MinHeap where
  "MinHeap_init = \<lparr>heap = []\<rparr>"

text \<open>Indices are list positions; the code only computes them from \<open>len(self.heap)\<close>.\<close>

definition parent :: "nat \<Rightarrow> nat" where
  "parent index = (if index < 3 then 0 else (index - 1) div 2)"

definition leftChild :: "nat \<Rightarrow> nat" where
  "leftChild index = 2 * index + 1"

definition rightChild :: "nat \<Rightarrow> nat" where
  "rightChild index = 2 * index + 2"

text \<open>
  The \<open>while\<close> loop of \<open>insert\<close>. Reading \<open>self.heap[new_child_index]\<close> beyond the end
  of the list raises; the parent's index is smaller, so it is in range whenever the
  child's is.
\<close>

function sift_up :: "int list \<Rightarrow> nat \<Rightarrow> py_error + int list" where
  "sift_up h new_child_index =
     (if new_child_index > 0 then
        (let parent_index = parent new_child_index in
         if length h \<le> new_child_index then Inl IndexError
         else if h ! parent_index > h ! new_child_index then
           sift_up (h[parent_index := h ! new_child_index,
                      new_child_index := h ! parent_index]) parent_index
         else Inr h)
      else Inr h)"
  by pat_completeness auto
termination
  by (relation "measure (\<lambda>(h, i). i)") (auto simp: parent_def)

definition insert_heap :: "MinHeap \<Rightarrow> int \<Rightarrow> py_error + MinHeap" where
  "insert_heap self key =
     (let h = heap self @ [key];
          new_child_index = length h - 1
      in case sift_up h new_child_index of
           Inl e \<Rightarrow> Inl e
         | Inr h' \<Rightarrow> Inr (self\<lparr>heap := h'\<rparr>))"

text \<open>
  The \<open>while True\<close> loop of \<open>extract_min\<close>; \<open>hsize\<close> is the variable \<open>size\<close>. Both
  reads of a child are guarded by a comparison of its index with \<open>hsize\<close>, and
  \<open>extract_min\<close> passes the length of the list.
\<close>

function bubble_down :: "int list \<Rightarrow> nat \<Rightarrow> nat \<Rightarrow> int list" where
  "bubble_down h hsize index =
     (let left = leftChild index;
          right = rightChild index;
          smallest = index;
          smallest = (if left < hsize \<and> h ! left < h ! smallest then left else smallest);
          smallest = (if right < hsize \<and> h ! right < h ! smallest then right else smallest)
      in if smallest \<noteq> index then
           bubble_down (h[index := h ! smallest, smallest := h ! index]) hsize smallest
         else h)"
  by pat_completeness auto
termination
  by (relation "measure (\<lambda>(h, hsize, i). hsize - i)")
     (auto simp: leftChild_def rightChild_def split: if_splits)

declare sift_up.simps [simp del]
declare bubble_down.simps [simp del]

text \<open>
  \<open>extract_min\<close> returns the extracted value (\<open>None\<close> on an empty heap) and the heap
  after the call. \<open>self.heap[0] = self.heap.pop()\<close> pops first and then stores at
  index 0 of the shortened list.
\<close>

definition extract_min :: "MinHeap \<Rightarrow> int option \<times> MinHeap" where
  "extract_min self =
     (if heap self = [] then (None, self)
      else if length (heap self) = 1 then
        (Some (last (heap self)), self\<lparr>heap := butlast (heap self)\<rparr>)
      else
        (let min_val = heap self ! 0;
             h = (butlast (heap self))[0 := last (heap self)];
             hsize = length h
         in (Some min_val, self\<lparr>heap := bubble_down h hsize 0\<rparr>)))"

text \<open>A sequence of \<open>insert\<close> calls, and \<open>n\<close> calls of \<open>extract_min\<close> with their results.\<close>

fun insert_all :: "MinHeap \<Rightarrow> int list \<Rightarrow> py_error + MinHeap" where
  "insert_all self [] = Inr self"
| "insert_all self (x # xs) =
     (case insert_heap self x of
        Inl e \<Rightarrow> Inl e
      | Inr self' \<Rightarrow> insert_all self' xs)"

fun extract_n :: "nat \<Rightarrow> MinHeap \<Rightarrow> int option list \<times> MinHeap" where
  "extract_n 0 self = ([], self)"
| "extract_n (Suc n) self =
     (case extract_min self of
        (r, self') \<Rightarrow> (case extract_n n self' of (rs, self'') \<Rightarrow> (r # rs, self'')))"

text \<open>The heap property of the array: no element is below its parent.\<close>

definition heap_ok :: "int list \<Rightarrow> bool" where
  "heap_ok h \<longleftrightarrow> list_all (\<lambda>i. h ! ((i - 1) div 2) \<le> h ! i) [1 ..< length h]"

text \<open>
  The loop invariants. While sifting up, the heap property may fail only between
  index \<open>i\<close> and its parent, and the children of \<open>i\<close> are not below the parent of
  \<open>i\<close>. While bubbling down, it may fail only between \<open>i\<close> and its children, which
  again are not below the parent of \<open>i\<close>.
\<close>

definition up_inv :: "int list \<Rightarrow> nat \<Rightarrow> bool" where
  "up_inv h i \<longleftrightarrow>
     i < length h \<and>
     (\<forall>j. 0 < j \<and> j < length h \<and> j \<noteq> i \<longrightarrow> h ! ((j - 1) div 2) \<le> h ! j) \<and>
     (0 < i \<longrightarrow> (\<forall>j. 0 < j \<and> j < length h \<and> (j - 1) div 2 = i \<longrightarrow> h ! ((i - 1) div 2) \<le> h ! j))"

definition down_inv :: "int list \<Rightarrow> nat \<Rightarrow> bool" where
  "down_inv h i \<longleftrightarrow>
     (\<forall>j. 0 < j \<and> j < length h \<and> (j - 1) div 2 \<noteq> i \<longrightarrow> h ! ((j - 1) div 2) \<le> h ! j) \<and>
     (0 < i \<longrightarrow> (\<forall>j. 0 < j \<and> j < length h \<and> (j - 1) div 2 = i \<longrightarrow> h ! ((i - 1) div 2) \<le> h ! j))"

section \<open>Properties of the graph\<close>

lemma foldl_add_edge:
  "foldl add_edge d es a =
     (let new = map snd (filter (\<lambda>e. fst e = a) es) in
      if new = [] then d a else Some ((case d a of None \<Rightarrow> [] | Some adj \<Rightarrow> adj) @ new))"
proof (induction es arbitrary: d)
  case Nil
  then show ?case by simp
next
  case (Cons e es)
  obtain s t where e: "e = (s, t)" by (cases e)
  show ?case
    unfolding foldl_Cons Cons.IH
    by (auto simp: e add_edge_def Let_def split: option.splits)
qed

lemma graph_dict_Graph:
  "graph_dict (Graph es) a =
     (let new = map snd (filter (\<lambda>e. fst e = a) es) in if new = [] then None else Some new)"
  by (simp add: Graph_def foldl_add_edge Let_def)

lemma graph_dict_Graph_edge:
  "graph_dict (Graph es) a = Some adj \<Longrightarrow> b \<in> set adj \<Longrightarrow> (a, b) \<in> set es"
  by (auto simp: graph_dict_Graph Let_def split: if_splits)

lemma collect_paths_mono:
  assumes "\<And>node r. node \<in> set adj \<Longrightarrow> f node = Inr r \<Longrightarrow> f' node = Inr r"
    and "collect_paths f adj temp = Inr ps"
  shows "collect_paths f' adj temp = Inr ps"
  using assms
proof (induction adj arbitrary: temp)
  case Nil
  then show ?case by simp
next
  case (Cons node rest)
  from Cons.prems(2) obtain r where r: "f node = Inr r"
    and rest: "collect_paths f rest (temp @ r) = Inr ps"
    by (auto split: sum.splits)
  have "f' node = Inr r" using Cons.prems(1) r by simp
  moreover have "collect_paths f' rest (temp @ r) = Inr ps"
    using Cons.IH [OF _ rest] Cons.prems(1) by simp
  ultimately show ?case by simp
qed

lemma get_all_paths_mono:
  "get_all_paths d g start dest path = Inr ps \<Longrightarrow> d \<le> d' \<Longrightarrow>
     get_all_paths d' g start dest path = Inr ps"
proof (induction d arbitrary: d' start path ps)
  case 0
  then show ?case by simp
next
  case (Suc d)
  then obtain e' where d': "d' = Suc e'" and le: "d \<le> e'" by (cases d') auto
  show ?case
  proof (cases "start = dest \<or> graph_dict g start = None")
    case True
    then show ?thesis using Suc.prems(1) by (auto simp: d' Let_def domIff)
  next
    case False
    then obtain adj where adj: "graph_dict g start = Some adj" by auto
    show ?thesis
    proof (cases "adj = []")
      case True
      then show ?thesis using Suc.prems(1) False adj by (simp add: d' Let_def domIff)
    next
      case ne: False
      from Suc.prems(1) False adj ne
      have "collect_paths (\<lambda>node. get_all_paths d g node dest (path @ [start])) adj [] = Inr ps"
        by (simp add: Let_def domIff)
      then have "collect_paths (\<lambda>node. get_all_paths e' g node dest (path @ [start])) adj [] = Inr ps"
        by (rule collect_paths_mono [rotated]) (rule Suc.IH [OF _ le])
      then show ?thesis using False adj ne by (simp add: d' Let_def domIff)
    qed
  qed
qed

lemma sample_paths4:
  "get_all_paths 4 (Graph routes) ''Mumbai'' ''New York'' [] =
     Inr [[''Mumbai'', ''Paris'', ''Dubai'', ''New York''],
          [''Mumbai'', ''Paris'', ''New York''],
          [''Mumbai'', ''Dubai'', ''New York'']]"
  by code_simp

text \<open>
  Claim C7. On the graph built from the six sample routes, \<open>get_all_paths\<close> from
  Mumbai to New York returns exactly the three paths Mumbai, Paris, Dubai, New York;
  Mumbai, Paris, New York; and Mumbai, Dubai, New York, in this order, at every
  recursion depth of at least 4.
\<close>

theorem sample_all_paths:
  "get_all_paths (4 + k) (Graph routes) ''Mumbai'' ''New York'' [] =
     Inr [[''Mumbai'', ''Paris'', ''Dubai'', ''New York''],
          [''Mumbai'', ''Paris'', ''New York''],
          [''Mumbai'', ''Dubai'', ''New York'']]"
  by (rule get_all_paths_mono [OF sample_paths4]) simp

text \<open>
  Claim C10. For every graph and label \<open>s\<close>, \<open>find_shortest_path\<close> from \<open>s\<close>
  to \<open>s\<close> returns the empty list, although \<open>get_all_paths\<close> from \<open>s\<close> to
  \<open>s\<close> returns the single path \<open>[s]\<close>: the guard comes before the enumeration.
\<close>

theorem find_shortest_path_same:
  "find_shortest_path depth g s s = Inr [] \<and> get_all_paths (Suc depth) g s s [] = Inr [[s]]"
  by (simp add: find_shortest_path_def)

lemma shortest_scan_upto:
  "0 < k \<Longrightarrow> k \<le> length ps \<Longrightarrow>
     \<exists>i<k. foldl (shortest_step ps) (None, \<infinity>) [0 ..< k] = (Some i, enat (length (ps ! i)))
       \<and> (\<forall>j<k. length (ps ! i) \<le> length (ps ! j))
       \<and> (\<forall>j<i. length (ps ! i) < length (ps ! j))"
proof (induction k)
  case 0
  then show ?case by simp
next
  case (Suc k)
  show ?case
  proof (cases "k = 0")
    case True
    then show ?thesis by (simp add: shortest_step_def)
  next
    case False
    with Suc obtain i where i: "i < k"
      and st: "foldl (shortest_step ps) (None, \<infinity>) [0 ..< k] = (Some i, enat (length (ps ! i)))"
      and mn: "\<forall>j<k. length (ps ! i) \<le> length (ps ! j)"
      and fst: "\<forall>j<i. length (ps ! i) < length (ps ! j)"
      by auto
    show ?thesis
    proof (cases "length (ps ! k) < length (ps ! i)")
      case True
      have "foldl (shortest_step ps) (None, \<infinity>) [0 ..< Suc k] = (Some k, enat (length (ps ! k)))"
        using st True by (simp add: shortest_step_def)
      moreover have "\<forall>j<Suc k. length (ps ! k) \<le> length (ps ! j)"
        using mn True by (auto simp: less_Suc_eq)
      moreover have "\<forall>j<k. length (ps ! k) < length (ps ! j)"
        using mn True by (meson less_le_trans)
      ultimately show ?thesis by blast
    next
      case False
      have "foldl (shortest_step ps) (None, \<infinity>) [0 ..< Suc k] = (Some i, enat (length (ps ! i)))"
        using st False by (simp add: shortest_step_def)
      moreover have "\<forall>j<Suc k. length (ps ! i) \<le> length (ps ! j)"
        using mn False by (auto simp: less_Suc_eq)
      ultimately show ?thesis using i fst by (metis less_Suc_eq)
    qed
  qed
qed

lemma shortest_scan_min:
  assumes "ps \<noteq> []"
  shows "\<exists>i<length ps. fst (shortest_scan ps) = Some i
       \<and> (\<forall>j<length ps. length (ps ! i) \<le> length (ps ! j))
       \<and> (\<forall>j<i. length (ps ! i) < length (ps ! j))"
proof -
  have "0 < length ps" using assms by simp
  from shortest_scan_upto [OF this le_refl] show ?thesis
    unfolding shortest_scan_def by force
qed

lemma find_shortest_path_min:
  assumes ne: "start \<noteq> dest" and ps: "get_all_paths depth g start dest [] = Inr ps"
  shows "\<exists>r. find_shortest_path depth g start dest = Inr r \<and>
           (if ps = [] then r = []
            else r \<in> set ps \<and> (\<forall>p \<in> set ps. length r \<le> length p))"
proof (cases "ps = []")
  case True
  then show ?thesis using ne ps by (simp add: find_shortest_path_def)
next
  case False
  from shortest_scan_min [OF False] obtain i where i: "i < length ps"
    and sc: "fst (shortest_scan ps) = Some i"
    and mn: "\<forall>j<length ps. length (ps ! i) \<le> length (ps ! j)"
    by blast
  have "find_shortest_path depth g start dest = Inr (ps ! i)"
    using ne ps False sc by (simp add: find_shortest_path_def)
  moreover have "ps ! i \<in> set ps" using i by simp
  moreover have "\<forall>p \<in> set ps. length (ps ! i) \<le> length p"
    using mn by (auto simp: in_set_conv_nth)
  ultimately show ?thesis using False by simp
qed

lemma collect_paths_total:
  "(\<And>node. node \<in> set adj \<Longrightarrow> \<exists>r. f node = Inr r) \<Longrightarrow>
     \<exists>ps. collect_paths f adj temp = Inr ps"
proof (induction adj arbitrary: temp)
  case Nil
  then show ?case by simp
next
  case (Cons node rest)
  then obtain r where "f node = Inr r" by auto
  moreover have "\<exists>ps. collect_paths f rest (temp @ r) = Inr ps"
    using Cons by simp
  ultimately show ?case by simp
qed

lemma get_all_paths_returns:
  assumes ac: "acyclic (set es)"
  shows "\<exists>n. \<forall>depth\<ge>n. \<forall>path. \<exists>ps. get_all_paths depth (Graph es) start dest path = Inr ps"
proof -
  have wf: "wf ((set es)\<inverse>)"
    using ac by (simp add: finite_acyclic_wf_converse)
  show ?thesis
    using wf
  proof (induction start rule: wf_induct_rule)
    case (less s)
    show ?case
    proof (cases "s = dest \<or> graph_dict (Graph es) s = None")
      case True
      have "\<forall>depth\<ge>1. \<forall>path. \<exists>ps. get_all_paths depth (Graph es) s dest path = Inr ps"
      proof (intro allI impI)
        fix depth :: nat and path assume "1 \<le> depth"
        then obtain d where "depth = Suc d" by (cases depth) auto
        then show "\<exists>ps. get_all_paths depth (Graph es) s dest path = Inr ps"
          using True by (auto simp: domIff Let_def)
      qed
      then show ?thesis by blast
    next
      case False
      then obtain adj where ne: "s \<noteq> dest" and adj: "graph_dict (Graph es) s = Some adj"
        by auto
      have "\<forall>t \<in> set adj. \<exists>n. \<forall>depth\<ge>n. \<forall>path. \<exists>ps.
              get_all_paths depth (Graph es) t dest path = Inr ps"
      proof
        fix t assume "t \<in> set adj"
        then have "(s, t) \<in> set es" using adj by (rule graph_dict_Graph_edge [rotated])
        then have "(t, s) \<in> (set es)\<inverse>" by simp
        then show "\<exists>n. \<forall>depth\<ge>n. \<forall>path. \<exists>ps.
              get_all_paths depth (Graph es) t dest path = Inr ps"
          by (rule less.IH)
      qed
      then obtain N where N: "\<forall>t \<in> set adj. \<forall>depth\<ge>N t. \<forall>path. \<exists>ps.
              get_all_paths depth (Graph es) t dest path = Inr ps"
        by metis
      define M where "M = Suc (Max (N ` set adj \<union> {0}))"
      have "\<forall>depth\<ge>M. \<forall>path. \<exists>ps. get_all_paths depth (Graph es) s dest path = Inr ps"
      proof (intro allI impI)
        fix depth :: nat and path assume "M \<le> depth"
        then obtain d where d: "depth = Suc d" and dM: "Max (N ` set adj \<union> {0}) \<le> d"
          unfolding M_def by (cases depth) auto
        have "\<And>t. t \<in> set adj \<Longrightarrow> \<exists>r. get_all_paths d (Graph es) t dest (path @ [s]) = Inr r"
        proof -
          fix t assume t: "t \<in> set adj"
          with dM have "N t \<le> d" by simp
          with N t show "\<exists>r. get_all_paths d (Graph es) t dest (path @ [s]) = Inr r" by blast
        qed
        then have "\<exists>ps. collect_paths (\<lambda>node. get_all_paths d (Graph es) node dest (path @ [s])) adj [] = Inr ps"
          by (rule collect_paths_total)
        then show "\<exists>ps. get_all_paths depth (Graph es) s dest path = Inr ps"
          using ne adj by (simp add: d Let_def domIff)
      qed
      then show ?thesis by blast
    qed
  qed
qed

lemma routes_acyclic: "acyclic (set routes)"
proof -
  define rank :: "string \<Rightarrow> nat" where
    "rank s = (if s = ''Mumbai'' then 4 else if s = ''Paris'' then 3
               else if s = ''Dubai'' then 2 else if s = ''New York'' then 1 else 0)" for s
  show ?thesis
    by (rule acyclicI_order [where f = rank]) (auto simp: routes_def rank_def)
qed

text \<open>
  Claim C9 (amended). For \<open>start \<noteq> dest\<close>, whenever \<open>get_all_paths\<close> returns the
  paths \<open>ps\<close>, \<open>find_shortest_path\<close> returns the empty list if \<open>ps\<close> is empty and
  otherwise a member of \<open>ps\<close> of minimum length. On a graph built from an acyclic
  edge list \<open>get_all_paths\<close> does return, at every sufficient recursion depth. On the
  sample graph \<open>find_shortest_path\<close> returns Mumbai, Paris, New York at every
  recursion depth of at least 4.
\<close>

theorem find_shortest_path_spec:
  "(start \<noteq> dest \<and> get_all_paths depth g start dest [] = Inr ps \<longrightarrow>
      (\<exists>r. find_shortest_path depth g start dest = Inr r \<and>
           (if ps = [] then r = []
            else r \<in> set ps \<and> (\<forall>p \<in> set ps. length r \<le> length p))))
   \<and> (acyclic (set es) \<longrightarrow>
        (\<exists>n. \<forall>depth\<ge>n. \<exists>ps. get_all_paths depth (Graph es) start dest [] = Inr ps))
   \<and> find_shortest_path (4 + k) (Graph routes) ''Mumbai'' ''New York''
        = Inr [''Mumbai'', ''Paris'', ''New York'']"
proof (intro conjI)
  show "start \<noteq> dest \<and> get_all_paths depth g start dest [] = Inr ps \<longrightarrow>
      (\<exists>r. find_shortest_path depth g start dest = Inr r \<and>
           (if ps = [] then r = []
            else r \<in> set ps \<and> (\<forall>p \<in> set ps. length r \<le> length p)))"
    using find_shortest_path_min by blast
next
  show "acyclic (set es) \<longrightarrow>
        (\<exists>n. \<forall>depth\<ge>n. \<exists>ps. get_all_paths depth (Graph es) start dest [] = Inr ps)"
    using get_all_paths_returns [of es start dest] by blast
next
  have "get_all_paths (4 + k) (Graph routes) ''Mumbai'' ''New York'' [] =
     Inr [[''Mumbai'', ''Paris'', ''Dubai'', ''New York''],
          [''Mumbai'', ''Paris'', ''New York''],
          [''Mumbai'', ''Dubai'', ''New York'']]"
    by (rule get_all_paths_mono [OF sample_paths4]) simp
  then show "find_shortest_path (4 + k) (Graph routes) ''Mumbai'' ''New York''
        = Inr [''Mumbai'', ''Paris'', ''New York'']"
    by (simp add: find_shortest_path_def shortest_scan_def shortest_step_def)
qed

theorem find_shortest_path_spec_witness:
  "(\<exists>r. find_shortest_path 4 (Graph routes) ''Mumbai'' ''New York'' = Inr r \<and>
     r \<in> set [[''Mumbai'', ''Paris'', ''Dubai'', ''New York''],
          [''Mumbai'', ''Paris'', ''New York''],
          [''Mumbai'', ''Dubai'', ''New York'']] \<and> length r = 3)
   \<and> (\<exists>n. \<forall>depth\<ge>n. \<exists>ps. get_all_paths depth (Graph routes) ''Paris'' ''Toronto'' [] = Inr ps)"
proof
  have ne: "''Mumbai'' \<noteq> ''New York''" by simp
  from find_shortest_path_spec [of "''Mumbai''" "''New York''" 4 "Graph routes" _ _ 0] ne sample_paths4
  obtain r where r: "find_shortest_path 4 (Graph routes) ''Mumbai'' ''New York'' = Inr r"
    and m: "r \<in> set [[''Mumbai'', ''Paris'', ''Dubai'', ''New York''],
          [''Mumbai'', ''Paris'', ''New York''],
          [''Mumbai'', ''Dubai'', ''New York'']]"
    and mn: "\<forall>p \<in> set [[''Mumbai'', ''Paris'', ''Dubai'', ''New York''],
          [''Mumbai'', ''Paris'', ''New York''],
          [''Mumbai'', ''Dubai'', ''New York'']]. length r \<le> length p"
    by auto
  from m mn have "length r = 3" by auto
  with r m show "\<exists>r. find_shortest_path 4 (Graph routes) ''Mumbai'' ''New York'' = Inr r \<and>
     r \<in> set [[''Mumbai'', ''Paris'', ''Dubai'', ''New York''],
          [''Mumbai'', ''Paris'', ''New York''],
          [''Mumbai'', ''Dubai'', ''New York'']] \<and> length r = 3" by blast
next
  show "\<exists>n. \<forall>depth\<ge>n. \<exists>ps. get_all_paths depth (Graph routes) ''Paris'' ''Toronto'' [] = Inr ps"
    using find_shortest_path_spec [where es = routes and start = "''Paris''" and dest = "''Toronto''"] routes_acyclic
    by blast
qed

theorem find_shortest_path_spec_counterexample:
  "get_all_paths 4 (Graph routes) ''Mumbai'' ''Mumbai'' [] = Inr [[''Mumbai'']]
   \<and> find_shortest_path 4 (Graph routes) ''Mumbai'' ''Mumbai'' = Inr []
   \<and> [] \<notin> set [[''Mumbai'']]"
  by (simp add: find_shortest_path_def numeral_nat)

lemma collect_paths_all_empty:
  "(\<And>node. node \<in> set adj \<Longrightarrow> f node = Inr []) \<Longrightarrow> collect_paths f adj temp = Inr temp"
  by (induction adj arbitrary: temp) auto

lemma get_all_paths_absent:
  "start \<noteq> dest \<Longrightarrow> graph_dict g start = None \<Longrightarrow>
     get_all_paths (Suc depth) g start dest path = Inr []"
  by (simp add: domIff)

lemma get_all_paths_unreachable:
  assumes ac: "acyclic (set es)"
  shows "(start, dest) \<notin> (set es)\<^sup>* \<Longrightarrow>
           \<exists>n. \<forall>depth\<ge>n. \<forall>path. get_all_paths depth (Graph es) start dest path = Inr []"
proof -
  have wf: "wf ((set es)\<inverse>)"
    using ac by (simp add: finite_acyclic_wf_converse)
  show "(start, dest) \<notin> (set es)\<^sup>* \<Longrightarrow>
           \<exists>n. \<forall>depth\<ge>n. \<forall>path. get_all_paths depth (Graph es) start dest path = Inr []"
    using wf
  proof (induction start rule: wf_induct_rule)
    case (less s)
    have ne: "s \<noteq> dest" using less.prems by auto
    show ?case
    proof (cases "graph_dict (Graph es) s")
      case None
      have "\<forall>depth\<ge>1. \<forall>path. get_all_paths depth (Graph es) s dest path = Inr []"
      proof (intro allI impI)
        fix depth :: nat and path assume "1 \<le> depth"
        then obtain d where "depth = Suc d" by (cases depth) auto
        then show "get_all_paths depth (Graph es) s dest path = Inr []"
          using get_all_paths_absent [OF ne None] by simp
      qed
      then show ?thesis by blast
    next
      case (Some adj)
      have "\<forall>t \<in> set adj. \<exists>n. \<forall>depth\<ge>n. \<forall>path. get_all_paths depth (Graph es) t dest path = Inr []"
      proof
        fix t assume t: "t \<in> set adj"
        then have e: "(s, t) \<in> set es" using Some by (rule graph_dict_Graph_edge [rotated])
        then have "(t, dest) \<notin> (set es)\<^sup>*"
          using less.prems by (meson converse_rtrancl_into_rtrancl)
        moreover have "(t, s) \<in> (set es)\<inverse>" using e by simp
        ultimately show "\<exists>n. \<forall>depth\<ge>n. \<forall>path. get_all_paths depth (Graph es) t dest path = Inr []"
          using less.IH by blast
      qed
      then obtain N where N: "\<forall>t \<in> set adj. \<forall>depth\<ge>N t. \<forall>path. get_all_paths depth (Graph es) t dest path = Inr []"
        by metis
      define M where "M = Suc (Max (N ` set adj \<union> {0}))"
      have "\<forall>depth\<ge>M. \<forall>path. get_all_paths depth (Graph es) s dest path = Inr []"
      proof (intro allI impI)
        fix depth :: nat and path assume "M \<le> depth"
        then obtain d where d: "depth = Suc d" and dM: "Max (N ` set adj \<union> {0}) \<le> d"
          unfolding M_def by (cases depth) auto
        have "\<And>t. t \<in> set adj \<Longrightarrow> get_all_paths d (Graph es) t dest (path @ [s]) = Inr []"
        proof -
          fix t assume t: "t \<in> set adj"
          with dM have "N t \<le> d" by simp
          with N t show "get_all_paths d (Graph es) t dest (path @ [s]) = Inr []" by blast
        qed
        then have "collect_paths (\<lambda>node. get_all_paths d (Graph es) node dest (path @ [s])) adj [] = Inr []"
          by (rule collect_paths_all_empty)
        then show "get_all_paths depth (Graph es) s dest path = Inr []"
          using ne Some by (simp add: d Let_def domIff)
      qed
      then show ?thesis by blast
    qed
  qed
qed

text \<open>
  Claim C8 (amended). If \<open>start\<close> differs from \<open>dest\<close> and is absent from the
  adjacency map, \<open>get_all_paths\<close> returns the empty sequence. If the edge list is
  acyclic and \<open>dest\<close> is not reachable from \<open>start\<close>, \<open>get_all_paths\<close> on the
  graph built from it returns the empty sequence at every sufficient recursion depth.
\<close>

theorem get_all_paths_empty:
  "(start \<noteq> dest \<and> graph_dict g start = None \<longrightarrow>
      get_all_paths (Suc depth) g start dest path = Inr [])
   \<and> (acyclic (set es) \<and> (start, dest) \<notin> (set es)\<^sup>* \<longrightarrow>
      (\<exists>n. \<forall>depth\<ge>n. get_all_paths depth (Graph es) start dest path = Inr []))"
  using get_all_paths_absent [of start dest g depth path]
    get_all_paths_unreachable [of es start dest]
  by blast

lemma routes_from_Dubai:
  "(''Dubai'', x) \<in> (set routes)\<^sup>* \<Longrightarrow> x \<in> {''Dubai'', ''New York'', ''Toronto''}"
  by (induction rule: rtrancl_induct) (auto simp: routes_def)

lemma cyclic_never_returns:
  "get_all_paths depth (Graph cyclic_edges) ''A'' ''C'' path = Inl RecursionError
   \<and> get_all_paths depth (Graph cyclic_edges) ''B'' ''C'' path = Inl RecursionError"
proof (induction depth arbitrary: path)
  case 0
  then show ?case by simp
next
  case (Suc depth)
  have A: "graph_dict (Graph cyclic_edges) ''A'' = Some [''B'']"
    and B: "graph_dict (Graph cyclic_edges) ''B'' = Some [''A'']"
    by (simp_all add: cyclic_edges_def Graph_def add_edge_def)
  show ?case using Suc [of "path @ [''A'']"] Suc [of "path @ [''B'']"]
    by (simp add: A B domIff)
qed

lemma cyclic_unreachable: "(''A'', ''C'') \<notin> (set cyclic_edges)\<^sup>*"
proof
  assume "(''A'', ''C'') \<in> (set cyclic_edges)\<^sup>*"
  moreover have "(''A'', x) \<in> (set cyclic_edges)\<^sup>* \<Longrightarrow> x \<in> {''A'', ''B''}" for x
    by (induction rule: rtrancl_induct) (auto simp: cyclic_edges_def)
  ultimately show False by fastforce
qed

theorem get_all_paths_empty_witness:
  "get_all_paths 1 (Graph routes) ''Toronto'' ''Mumbai'' [] = Inr []
   \<and> (\<exists>n. \<forall>depth\<ge>n. get_all_paths depth (Graph routes) ''Dubai'' ''Paris'' [] = Inr [])"
proof
  have "''Toronto'' \<noteq> ''Mumbai''" by simp
  moreover have "graph_dict (Graph routes) ''Toronto'' = None"
    by (simp add: routes_def Graph_def add_edge_def)
  ultimately show "get_all_paths 1 (Graph routes) ''Toronto'' ''Mumbai'' [] = Inr []"
    using get_all_paths_empty [of "''Toronto''" "''Mumbai''" "Graph routes" 0 "[]"] by simp
next
  have "(''Dubai'', ''Paris'') \<notin> (set routes)\<^sup>*"
    using routes_from_Dubai [of "''Paris''"] by auto
  then show "\<exists>n. \<forall>depth\<ge>n. get_all_paths depth (Graph routes) ''Dubai'' ''Paris'' [] = Inr []"
    using get_all_paths_empty [of "''Dubai''" "''Paris''" _ _ "[]" routes] routes_acyclic by blast
qed

theorem get_all_paths_empty_counterexample:
  "graph_dict (Graph routes) ''Toronto'' = None
   \<and> get_all_paths 4 (Graph routes) ''Toronto'' ''Toronto'' [] = Inr [[''Toronto'']]
   \<and> (''A'', ''C'') \<notin> (set cyclic_edges)\<^sup>*
   \<and> (\<forall>depth. get_all_paths depth (Graph cyclic_edges) ''A'' ''C'' [] = Inl RecursionError)"
proof -
  have "graph_dict (Graph routes) ''Toronto'' = None"
    by (simp add: routes_def Graph_def add_edge_def)
  moreover have "get_all_paths 4 (Graph routes) ''Toronto'' ''Toronto'' [] = Inr [[''Toronto'']]"
    by (simp add: numeral_nat)
  ultimately show ?thesis using cyclic_unreachable cyclic_never_returns by blast
qed

section \<open>Properties of the BST\<close>

lemma set_insert_bst:
  "set (inorder_visit (Some (insert_bst t v))) =
     (if v = 0 then set (inorder_visit (Some t)) else insert v (set (inorder_visit (Some t))))"
proof (induction t)
  case (BST d l r)
  show ?case
  proof (cases l; cases r)
  qed (use BST in \<open>auto\<close>)
qed

lemma bst_inv_insert_bst:
  "bst_inv (Some t) \<Longrightarrow> bst_inv (Some (insert_bst t v))"
proof (induction t)
  case (BST d l r)
  show ?case
  proof (cases l; cases r)
  qed (use BST in \<open>auto simp: list_all_iff set_insert_bst\<close>)
qed

lemma sorted_inorder_visit:
  "bst_inv t \<Longrightarrow> sorted_wrt (<) (inorder_visit t)"
proof (induction t rule: inorder_visit.induct)
  case 1
  then show ?case by simp
next
  case (2 d l r)
  then show ?case
    by (fastforce simp: sorted_wrt_append list_all_iff)
qed

lemma insert_bst_present:
  "bst_inv (Some t) \<Longrightarrow> v \<in> set (inorder_visit (Some t)) \<Longrightarrow> insert_bst t v = t"
proof (induction t)
  case (BST d l r)
  show ?case
  proof (cases l; cases r)
  qed (use BST in \<open>auto simp: list_all_iff\<close>)
qed

lemma bst_inv_build: "bst_inv (Some (build rt vs))"
proof -
  have "bst_inv (Some t) \<Longrightarrow> bst_inv (Some (foldl insert_bst t vs))" for t
    by (induction vs arbitrary: t) (simp_all add: bst_inv_insert_bst)
  then show ?thesis by (simp add: build_def)
qed

lemma set_build:
  "set (inorder (build rt vs)) = insert rt (set vs - {0})"
proof -
  have "set (inorder_visit (Some (foldl insert_bst t vs)))
          = set (inorder_visit (Some t)) \<union> (set vs - {0})" for t
    by (induction vs arbitrary: t) (auto simp: set_insert_bst split: if_splits)
  then show ?thesis by (simp add: build_def inorder_def)
qed

text \<open>
  Claim C3. For every value at the root and every sequence of \<open>insert\<close> calls, the inorder
  traversal of the resulting tree is sorted in ascending order without repetition, and
  visits exactly the root value and the inserted nonzero values. When the inserted
  values exclude zero, these are the root value and all inserted values.
\<close>

theorem inorder_build_sorted:
  "sorted (inorder (build rt vs)) \<and> distinct (inorder (build rt vs))
     \<and> set (inorder (build rt vs)) = insert rt (set vs - {0})"
proof -
  have "sorted_wrt (<) (inorder (build rt vs))"
    unfolding inorder_def by (rule sorted_inorder_visit [OF bst_inv_build])
  then show ?thesis
    using set_build strict_sorted_iff by blast
qed

theorem inorder_build_sorted_witness:
  "sorted (inorder (build 21 [2, 4, 3, 5, 29, 11, 23, 5]))
   \<and> distinct (inorder (build 21 [2, 4, 3, 5, 29, 11, 23, 5]))
   \<and> set (inorder (build 21 [2, 4, 3, 5, 29, 11, 23, 5])) = {2, 3, 4, 5, 11, 21, 23, 29}"
  using inorder_build_sorted [of 21 "[2, 4, 3, 5, 29, 11, 23, 5]"] by auto

text \<open>
  Claim C4. \<open>insert\<close> of the value 0 leaves every tree unchanged; \<open>insert\<close> of a
  value already present leaves a search tree unchanged; and every tree made by the
  constructor and \<open>insert\<close> calls is a search tree. The model has no exception to
  raise: the comparisons of integers cannot fail.
\<close>

theorem insert_bst_noop:
  "(v = 0 \<longrightarrow> insert_bst t v = t)
   \<and> (bst_inv (Some t) \<and> v \<in> set (inorder t) \<longrightarrow> insert_bst t v = t)
   \<and> bst_inv (Some (build rt vs))"
proof (intro conjI impI)
  assume "v = 0"
  then show "insert_bst t v = t" by (cases t) simp
next
  assume "bst_inv (Some t) \<and> v \<in> set (inorder t)"
  then show "insert_bst t v = t"
    using insert_bst_present [of t v] by (simp add: inorder_def)
next
  show "bst_inv (Some (build rt vs))" by (rule bst_inv_build)
qed

theorem insert_bst_noop_witness:
  "insert_bst (build 21 [2, 4, 3, 5, 29, 11, 23]) 5 = build 21 [2, 4, 3, 5, 29, 11, 23]
   \<and> insert_bst (build 21 [2, 4, 3, 5, 29, 11, 23]) 0 = build 21 [2, 4, 3, 5, 29, 11, 23]"
proof -
  let ?t = "build 21 [2, 4, 3, 5, 29, 11, 23]"
  have mem: "5 \<in> set (inorder ?t)" by (simp add: set_build)
  have inv: "bst_inv (Some ?t)"
    using insert_bst_noop [of 5 ?t 21 "[2, 4, 3, 5, 29, 11, 23]"] by blast
  have "insert_bst ?t 5 = ?t"
    using insert_bst_noop [of 5 ?t 21 "[2, 4, 3, 5, 29, 11, 23]"] inv mem by blast
  moreover have "insert_bst ?t 0 = ?t"
    using insert_bst_noop [of 0 ?t 21 "[2, 4, 3, 5, 29, 11, 23]"] by blast
  ultimately show ?thesis by blast
qed

section \<open>Properties of the HashMap\<close>

lemma hm_inv_iff:
  "hm_inv pyhash self \<longleftrightarrow>
     0 < size_hm self \<and> length (buckets self) = nat (size_hm self) \<and>
     (\<forall>i<length (buckets self). distinct (map fst (buckets self ! i)) \<and>
        (\<forall>k \<in> fst ` set (buckets self ! i). nat (pyhash k mod size_hm self) = i))"
  by (auto simp: hm_inv_def list_all_iff)

lemma chain_get_find:
  "chain_get c index = map_option snd (find (\<lambda>(k, v). key_eq_int k index) c)"
  by (induction c) auto

lemma list_pos_in_range:
  "0 \<le> i \<Longrightarrow> i < int (length xs) \<Longrightarrow> list_pos xs i = Inr (nat i)"
  by (simp add: list_pos_def)

lemma hash_index_pos:
  "0 < size_hm self \<Longrightarrow> hash_index pyhash self key = Inr (pyhash key mod size_hm self)"
  by (simp add: hash_index_def)

lemma bucket_pos:
  assumes "0 < size_hm self" "length (buckets self) = nat (size_hm self)"
  shows "list_pos (buckets self) (pyhash key mod size_hm self) = Inr (nat (pyhash key mod size_hm self))"
    and "nat (pyhash key mod size_hm self) < length (buckets self)"
  using assms by (simp_all add: list_pos_def)

text \<open>
  Claim C5. In a map with a positive size and one bucket per index, \<open>get(key)\<close>
  returns the value of the first node in the bucket of \<open>hash(key) % size\<close> whose
  stored key equals that bucket index, and \<open>None\<close> if the bucket has no such node: the
  requested key is used for the bucket index only.
\<close>

theorem get_compares_index:
  assumes "0 < size_hm self" and "length (buckets self) = nat (size_hm self)"
  shows "get pyhash self key =
           Inr (map_option snd
                  (find (\<lambda>(k, v). key_eq_int k (pyhash key mod size_hm self))
                     (buckets self ! nat (pyhash key mod size_hm self))))"
  using assms by (simp add: get_def hash_index_pos bucket_pos chain_get_find)

theorem get_compares_index_witness:
  "get sample_hash \<lparr>size_hm = 3, buckets = [[], [(IntKey 4, ''d''), (IntKey 1, ''a'')], []]\<rparr>
     (IntKey 4) = Inr (Some ''a'')"
  using get_compares_index
    [of "\<lparr>size_hm = 3, buckets = [[], [(IntKey 4, ''d''), (IntKey 1, ''a'')], []]\<rparr>"
        sample_hash "IntKey 4"]
  by simp

lemma chain_put_None: "chain_put c key val = None \<longleftrightarrow> key \<notin> fst ` set c"
  by (induction c) (auto split: option.splits if_splits)

lemma chain_put_Some:
  "chain_put c key val = Some c' \<Longrightarrow> map fst c' = map fst c"
  by (induction c arbitrary: c') (auto split: option.splits if_splits)

lemma chain_remove_None: "chain_remove c key = None \<longleftrightarrow> key \<notin> fst ` set c"
  by (induction c) (auto split: option.splits if_splits)

lemma chain_remove_Some:
  "chain_remove c key = Some c' \<Longrightarrow> distinct (map fst c) \<Longrightarrow>
     distinct (map fst c') \<and> fst ` set c' = fst ` set c - {key}"
proof (induction c arbitrary: c')
  case Nil
  then show ?case by simp
next
  case (Cons a c)
  obtain k v where a: "a = (k, v)" by (cases a)
  show ?case
  proof (cases "k = key")
    case True
    then show ?thesis using Cons.prems by (auto simp: a)
  next
    case False
    with Cons.prems obtain r where r: "chain_remove c key = Some r" and c': "c' = (k, v) # r"
      by (auto simp: a split: option.splits)
    from Cons.IH [OF r] Cons.prems(2)
    have "distinct (map fst r)" and "fst ` set r = fst ` set c - {key}" by (auto simp: a)
    then show ?thesis using Cons.prems(2) False by (auto simp: a c')
  qed
qed

lemma hm_inv_init: "0 < n \<Longrightarrow> hm_inv pyhash (HashMap_init n)"
  by (simp add: hm_inv_iff HashMap_init_def)

lemma has_key_init: "0 < n \<Longrightarrow> \<not> has_key pyhash (HashMap_init n) k"
  by (simp add: has_key_def HashMap_init_def)

lemma hm_inv_update:
  assumes inv: "hm_inv pyhash self"
    and pos: "pos = nat (pyhash key mod size_hm self)"
    and d: "distinct (map fst c)"
    and ks: "fst ` set c \<subseteq> insert key (fst ` set (buckets self ! pos))"
  shows "hm_inv pyhash (self\<lparr>buckets := (buckets self)[pos := c]\<rparr>)"
  unfolding hm_inv_iff
proof (intro conjI allI impI)
  show "0 < size_hm (self\<lparr>buckets := (buckets self)[pos := c]\<rparr>)"
    using inv by (simp add: hm_inv_iff)
  show "length (buckets (self\<lparr>buckets := (buckets self)[pos := c]\<rparr>))
          = nat (size_hm (self\<lparr>buckets := (buckets self)[pos := c]\<rparr>))"
    using inv by (simp add: hm_inv_iff)
next
  fix i assume "i < length (buckets (self\<lparr>buckets := (buckets self)[pos := c]\<rparr>))"
  then have i: "i < length (buckets self)" by simp
  show "distinct (map fst (buckets (self\<lparr>buckets := (buckets self)[pos := c]\<rparr>) ! i))"
    using inv i d by (cases "i = pos") (simp_all add: hm_inv_iff)
  show "\<forall>k\<in>fst ` set (buckets (self\<lparr>buckets := (buckets self)[pos := c]\<rparr>) ! i).
          nat (pyhash k mod size_hm (self\<lparr>buckets := (buckets self)[pos := c]\<rparr>)) = i"
  proof (cases "i = pos")
    case True
    have "\<forall>k \<in> fst ` set (buckets self ! pos). nat (pyhash k mod size_hm self) = pos"
      using inv i True unfolding hm_inv_iff by blast
    then have "\<forall>k \<in> fst ` set c. nat (pyhash k mod size_hm self) = pos"
      using ks pos by blast
    then show ?thesis using True i by simp
  next
    case False
    then show ?thesis using inv i unfolding hm_inv_iff by simp
  qed
qed

lemma has_key_update:
  assumes inv: "hm_inv pyhash self"
    and pos: "pos = nat (pyhash key mod size_hm self)"
  shows "has_key pyhash (self\<lparr>buckets := (buckets self)[pos := c]\<rparr>) k \<longleftrightarrow>
           (if nat (pyhash k mod size_hm self) = pos then k \<in> fst ` set c
            else has_key pyhash self k)"
proof -
  have "pos < length (buckets self)"
    using inv pos by (simp add: hm_inv_iff)
  then show ?thesis by (simp add: has_key_def)
qed

lemma put_inv:
  assumes inv: "hm_inv pyhash self"
  shows "\<exists>self'. put pyhash self key val = Inr self' \<and> hm_inv pyhash self'
           \<and> size_hm self' = size_hm self
           \<and> (\<forall>k. has_key pyhash self' k \<longleftrightarrow> k = key \<or> has_key pyhash self k)"
proof -
  define pos where "pos = nat (pyhash key mod size_hm self)"
  define head where "head = buckets self ! pos"
  have sz: "0 < size_hm self" "length (buckets self) = nat (size_hm self)"
    using inv by (simp_all add: hm_inv_iff)
  have posl: "pos < length (buckets self)" using sz by (simp add: pos_def)
  have dh: "distinct (map fst head)" using inv posl by (simp add: hm_inv_iff head_def)
  show ?thesis
  proof (cases "chain_put head key val")
    case None
    then have nk: "key \<notin> fst ` set head" by (simp add: chain_put_None)
    let ?s = "self\<lparr>buckets := (buckets self)[pos := (key, val) # head]\<rparr>"
    have p: "put pyhash self key val = Inr ?s"
      using None sz by (simp add: put_def hash_index_pos bucket_pos pos_def head_def)
    have i: "hm_inv pyhash ?s"
      using inv pos_def by (rule hm_inv_update) (use dh nk in \<open>auto simp: head_def\<close>)
    have "has_key pyhash ?s k \<longleftrightarrow> k = key \<or> has_key pyhash self k" for k
      unfolding has_key_update [OF inv pos_def]
      by (auto simp: has_key_def head_def pos_def)
    with p i show ?thesis by auto
  next
    case (Some c)
    then have ik: "key \<in> fst ` set head"
      using chain_put_None [of head key val] by auto
    have mc: "map fst c = map fst head" using Some by (rule chain_put_Some)
    then have sc: "fst ` set c = fst ` set head" by (metis list.set_map)
    let ?s = "self\<lparr>buckets := (buckets self)[pos := c]\<rparr>"
    have p: "put pyhash self key val = Inr ?s"
      using Some sz by (simp add: put_def hash_index_pos bucket_pos pos_def head_def)
    have i: "hm_inv pyhash ?s"
      using inv pos_def by (rule hm_inv_update) (use dh mc sc in \<open>auto simp: head_def\<close>)
    have "has_key pyhash ?s k \<longleftrightarrow> k = key \<or> has_key pyhash self k" for k
      unfolding has_key_update [OF inv pos_def] sc
      using ik by (auto simp: has_key_def head_def pos_def)
    with p i show ?thesis by auto
  qed
qed

lemma remove_inv:
  assumes inv: "hm_inv pyhash self"
  shows "\<exists>found self'. remove pyhash self key = Inr (found, self') \<and> hm_inv pyhash self'
           \<and> size_hm self' = size_hm self
           \<and> (\<forall>k. has_key pyhash self' k \<longleftrightarrow> k \<noteq> key \<and> has_key pyhash self k)"
proof -
  define pos where "pos = nat (pyhash key mod size_hm self)"
  define head where "head = buckets self ! pos"
  have sz: "0 < size_hm self" "length (buckets self) = nat (size_hm self)"
    using inv by (simp_all add: hm_inv_iff)
  have posl: "pos < length (buckets self)" using sz by (simp add: pos_def)
  have dh: "distinct (map fst head)" using inv posl by (simp add: hm_inv_iff head_def)
  show ?thesis
  proof (cases "chain_remove head key")
    case None
    then have nk: "key \<notin> fst ` set head" by (simp add: chain_remove_None)
    have p: "remove pyhash self key = Inr (False, self)"
      using None sz by (simp add: remove_def hash_index_pos bucket_pos pos_def head_def)
    have "has_key pyhash self k \<longleftrightarrow> k \<noteq> key \<and> has_key pyhash self k" for k
      using nk by (auto simp: has_key_def head_def pos_def)
    with p inv show ?thesis by auto
  next
    case (Some c)
    from chain_remove_Some [OF Some dh]
    have dc: "distinct (map fst c)" and sc: "fst ` set c = fst ` set head - {key}" by auto
    let ?s = "self\<lparr>buckets := (buckets self)[pos := c]\<rparr>"
    have p: "remove pyhash self key = Inr (True, ?s)"
      using Some sz by (simp add: remove_def hash_index_pos bucket_pos pos_def head_def)
    have i: "hm_inv pyhash ?s"
      using inv pos_def by (rule hm_inv_update) (use dc sc in \<open>auto simp: head_def\<close>)
    have "has_key pyhash ?s k \<longleftrightarrow> k \<noteq> key \<and> has_key pyhash self k" for k
      unfolding has_key_update [OF inv pos_def] sc
      by (auto simp: has_key_def head_def pos_def)
    with p i show ?thesis by auto
  qed
qed

lemma put_all_inv:
  "hm_inv pyhash self \<Longrightarrow>
     \<exists>self'. put_all pyhash self kvs = Inr self' \<and> hm_inv pyhash self'
       \<and> size_hm self' = size_hm self
       \<and> (\<forall>k. has_key pyhash self' k \<longleftrightarrow> k \<in> fst ` set kvs \<or> has_key pyhash self k)"
proof (induction kvs arbitrary: self)
  case Nil
  then show ?case by simp
next
  case (Cons a kvs)
  obtain key val where a: "a = (key, val)" by (cases a)
  from put_inv [OF Cons.prems, of key val] obtain s1 where
    p: "put pyhash self key val = Inr s1" and i1: "hm_inv pyhash s1"
    and z1: "size_hm s1 = size_hm self"
    and k1: "\<forall>k. has_key pyhash s1 k \<longleftrightarrow> k = key \<or> has_key pyhash self k"
    by blast
  from Cons.IH [OF i1] obtain s2 where
    q: "put_all pyhash s1 kvs = Inr s2" and i2: "hm_inv pyhash s2"
    and z2: "size_hm s2 = size_hm s1"
    and k2: "\<forall>k. has_key pyhash s2 k \<longleftrightarrow> k \<in> fst ` set kvs \<or> has_key pyhash s1 k"
    by blast
  have "put_all pyhash self (a # kvs) = Inr s2" using p q by (simp add: a)
  moreover have "\<forall>k. has_key pyhash s2 k \<longleftrightarrow> k \<in> fst ` set (a # kvs) \<or> has_key pyhash self k"
    using k1 k2 by (auto simp: a)
  ultimately show ?case using i2 z1 z2 by auto
qed

lemma remove_all_inv:
  "hm_inv pyhash self \<Longrightarrow>
     \<exists>self'. remove_all pyhash self ks = Inr self' \<and> hm_inv pyhash self'
       \<and> size_hm self' = size_hm self
       \<and> (\<forall>k. has_key pyhash self' k \<longleftrightarrow> k \<notin> set ks \<and> has_key pyhash self k)"
proof (induction ks arbitrary: self)
  case Nil
  then show ?case by simp
next
  case (Cons key ks)
  from remove_inv [OF Cons.prems, of key] obtain found s1 where
    p: "remove pyhash self key = Inr (found, s1)" and i1: "hm_inv pyhash s1"
    and z1: "size_hm s1 = size_hm self"
    and k1: "\<forall>k. has_key pyhash s1 k \<longleftrightarrow> k \<noteq> key \<and> has_key pyhash self k"
    by blast
  from Cons.IH [OF i1] obtain s2 where
    q: "remove_all pyhash s1 ks = Inr s2" and i2: "hm_inv pyhash s2"
    and z2: "size_hm s2 = size_hm s1"
    and k2: "\<forall>k. has_key pyhash s2 k \<longleftrightarrow> k \<notin> set ks \<and> has_key pyhash s1 k"
    by blast
  have "remove_all pyhash self (key # ks) = Inr s2" using p q by simp
  moreover have "\<forall>k. has_key pyhash s2 k \<longleftrightarrow> k \<notin> set (key # ks) \<and> has_key pyhash self k"
    using k1 k2 by auto
  ultimately show ?case using i2 z1 z2 by auto
qed

lemma no_keys_empty:
  assumes inv: "hm_inv pyhash self" and nk: "\<forall>k. \<not> has_key pyhash self k"
  shows "buckets self = replicate (nat (size_hm self)) []"
proof (rule nth_equalityI)
  show len: "length (buckets self) = length (replicate (nat (size_hm self)) [])"
    using inv by (simp add: hm_inv_iff)
  fix i assume i: "i < length (buckets self)"
  have "buckets self ! i = []"
  proof (rule ccontr)
    assume "buckets self ! i \<noteq> []"
    then obtain k v where kv: "(k, v) \<in> set (buckets self ! i)"
      by (cases "buckets self ! i") auto
    then have "k \<in> fst ` set (buckets self ! i)" by force
    moreover from this have "nat (pyhash k mod size_hm self) = i"
      using inv i unfolding hm_inv_iff by blast
    ultimately have "has_key pyhash self k" by (simp add: has_key_def)
    with nk show False by blast
  qed
  then show "buckets self ! i = replicate (nat (size_hm self)) [] ! i"
    using i len by simp
qed

text \<open>
  Claim C6. On a fresh map of positive size, after \<open>put\<close> for each of a sequence of
  key-value pairs and then \<open>remove\<close> for each key of a sequence that covers the
  inserted keys, no call has raised and every bucket is empty.
\<close>

theorem put_then_remove_all_empty:
  assumes n: "0 < n" and ks: "fst ` set kvs \<subseteq> set ks"
  shows "\<exists>h1 h2. put_all pyhash (HashMap_init n) kvs = Inr h1
           \<and> remove_all pyhash h1 ks = Inr h2
           \<and> buckets h2 = replicate (nat n) []"
proof -
  from put_all_inv [OF hm_inv_init [OF n], of pyhash kvs] obtain h1 :: "'a HashMap" where
    p: "put_all pyhash (HashMap_init n) kvs = Inr h1" and i1: "hm_inv pyhash h1"
    and z1: "size_hm h1 = size_hm (HashMap_init n :: 'a HashMap)"
    and k1: "\<forall>k. has_key pyhash h1 k \<longleftrightarrow> k \<in> fst ` set kvs \<or> has_key pyhash (HashMap_init n :: 'a HashMap) k"
    by blast
  from remove_all_inv [OF i1, of ks] obtain h2 where
    q: "remove_all pyhash h1 ks = Inr h2" and i2: "hm_inv pyhash h2"
    and z2: "size_hm h2 = size_hm h1"
    and k2: "\<forall>k. has_key pyhash h2 k \<longleftrightarrow> k \<notin> set ks \<and> has_key pyhash h1 k"
    by blast
  have "\<forall>k. \<not> has_key pyhash h2 k"
    using k1 k2 ks has_key_init [OF n, of pyhash] by blast
  from no_keys_empty [OF i2 this] have "buckets h2 = replicate (nat n) []"
    using z1 z2 by (simp add: HashMap_init_def)
  with p q show ?thesis by blast
qed

theorem put_then_remove_all_empty_witness:
  "\<exists>h1 h2.
     put_all sample_hash (HashMap_init 3)
       [(IntKey 1, ''a''), (IntKey 4, ''b''), (StrKey ''xy'', ''c''), (IntKey 4, ''d'')] = Inr h1
     \<and> remove_all sample_hash h1 [IntKey 4, StrKey ''xy'', IntKey 1] = Inr h2
     \<and> buckets h2 = [[], [], []]"
  using put_then_remove_all_empty
    [of 3 "[(IntKey 1, ''a''), (IntKey 4, ''b''), (StrKey ''xy'', ''c''), (IntKey 4, ''d'')]"
        "[IntKey 4, StrKey ''xy'', IntKey 1]" sample_hash]
  by (simp add: numeral_3_eq_3)

section \<open>Properties of the MinHeap\<close>

lemma heap_ok_iff:
  "heap_ok h \<longleftrightarrow> (\<forall>i. 0 < i \<and> i < length h \<longrightarrow> h ! ((i - 1) div 2) \<le> h ! i)"
  by (auto simp: heap_ok_def list_all_iff)

lemma parent_eq: "0 < i \<Longrightarrow> parent i = (i - 1) div 2"
  by (auto simp: parent_def)

lemma up_inv_swap:
  assumes inv: "up_inv h i" and i: "0 < i" and lt: "h ! i < h ! ((i - 1) div 2)"
  shows "up_inv (h[(i - 1) div 2 := h ! i, i := h ! ((i - 1) div 2)]) ((i - 1) div 2)"
proof -
  define p where "p = (i - 1) div 2"
  define h2 where "h2 = h[p := h ! i, i := h ! p]"
  have il: "i < length h" using inv by (simp add: up_inv_def)
  have pi: "p < i" using i by (simp add: p_def)
  have lt': "h ! i < h ! p" using lt by (simp add: p_def)
  have len: "length h2 = length h" by (simp add: h2_def)
  have nth2: "h2 ! k = (if k = i then h ! p else if k = p then h ! i else h ! k)"
    if "k < length h" for k
    using that pi by (simp add: h2_def nth_list_update)
  have ok: "h ! ((j - 1) div 2) \<le> h ! j" if "0 < j" "j < length h" "j \<noteq> i" for j
    using inv that by (simp add: up_inv_def)
  have gp: "h ! ((i - 1) div 2) \<le> h ! j" if "0 < j" "j < length h" "(j - 1) div 2 = i" for j
    using inv that i by (simp add: up_inv_def)
  have par_lt: "(j - 1) div 2 < j" if "0 < j" for j :: nat using that by linarith
  have A: "h2 ! ((j - 1) div 2) \<le> h2 ! j" if j: "0 < j" "j < length h" "j \<noteq> p" for j
  proof -
    have pj: "(j - 1) div 2 < length h" using par_lt [OF j(1)] j(2) by simp
    show ?thesis
    proof (cases "j = i")
      case True
      then have "(j - 1) div 2 = p" by (simp add: p_def)
      then show ?thesis using nth2 [of i] nth2 [of p] il pi lt' True by simp
    next
      case ji: False
      have hj: "h2 ! j = h ! j" using nth2 [OF j(2)] ji j(3) by simp
      show ?thesis
      proof (cases "(j - 1) div 2 = i")
        case True
        then have "h2 ! ((j - 1) div 2) = h ! p" using nth2 [of i] il by simp
        moreover have "h ! p \<le> h ! j" using gp [OF j(1) j(2) True] by (simp add: p_def)
        ultimately show ?thesis using hj by simp
      next
        case ni: False
        show ?thesis
        proof (cases "(j - 1) div 2 = p")
          case True
          then have "h2 ! ((j - 1) div 2) = h ! i" using nth2 [of p] pi il by simp
          moreover have "h ! p \<le> h ! j" using ok [OF j(1) j(2) ji] True by simp
          ultimately show ?thesis using hj lt' by simp
        next
          case False
          then have "h2 ! ((j - 1) div 2) = h ! ((j - 1) div 2)" using nth2 [OF pj] ni by simp
          then show ?thesis using hj ok [OF j(1) j(2) ji] by simp
        qed
      qed
    qed
  qed
  have B: "h2 ! ((p - 1) div 2) \<le> h2 ! j"
    if p0: "0 < p" and j: "0 < j" "j < length h" "(j - 1) div 2 = p" for j
  proof -
    have ppl: "(p - 1) div 2 < p" using par_lt [OF p0] .
    then have "h2 ! ((p - 1) div 2) = h ! ((p - 1) div 2)"
      using nth2 [of "(p - 1) div 2"] pi il by simp
    moreover have pp: "h ! ((p - 1) div 2) \<le> h ! p"
      using ok [of p] p0 pi il by simp
    moreover have "h ! p \<le> h2 ! j"
    proof (cases "j = i")
      case True
      then show ?thesis using nth2 [of i] il by simp
    next
      case False
      have "j \<noteq> p" using j(3) par_lt [OF j(1)] by auto
      then have "h2 ! j = h ! j" using nth2 [OF j(2)] False by simp
      moreover have "h ! p \<le> h ! j" using ok [OF j(1) j(2) False] j(3) by simp
      ultimately show ?thesis by simp
    qed
    ultimately show ?thesis by simp
  qed
  have "up_inv h2 p"
    unfolding up_inv_def len using A B pi il by auto
  then show ?thesis by (simp add: h2_def p_def)
qed

lemma sift_up_correct:
  "up_inv h i \<Longrightarrow> \<exists>h'. sift_up h i = Inr h' \<and> heap_ok h' \<and> mset h' = mset h"
proof (induction h i rule: sift_up.induct)
  case (1 h i)
  have il: "i < length h" using "1.prems" by (simp add: up_inv_def)
  show ?case
  proof (cases "0 < i \<and> h ! i < h ! parent i")
    case True
    then have i: "0 < i" and lt: "h ! i < h ! ((i - 1) div 2)" by (auto simp: parent_eq)
    let ?h2 = "h[parent i := h ! i, i := h ! parent i]"
    have "up_inv ?h2 (parent i)"
      using up_inv_swap [OF "1.prems" i lt] i by (simp add: parent_eq)
    from "1.IH" [OF i refl _ _ this] il True
    obtain h' where "sift_up ?h2 (parent i) = Inr h'" "heap_ok h'" "mset h' = mset ?h2"
      by auto
    moreover have "parent i < length h" using il i by (auto simp: parent_def)
    then have "mset ?h2 = mset h"
      using il by (simp add: mset_swap)
    moreover have "sift_up h i = sift_up ?h2 (parent i)"
      using True il by (subst sift_up.simps) (simp add: Let_def)
    ultimately show ?thesis by simp
  next
    case False
    have "sift_up h i = Inr h"
      using False il by (subst sift_up.simps) (auto simp: Let_def)
    moreover have "heap_ok h"
      unfolding heap_ok_iff
    proof (intro allI impI)
      fix j assume j: "0 < j \<and> j < length h"
      show "h ! ((j - 1) div 2) \<le> h ! j"
      proof (cases "j = i")
        case True
        then show ?thesis using False j by (simp add: parent_eq)
      next
        case False
        then show ?thesis using "1.prems" j by (simp add: up_inv_def)
      qed
    qed
    ultimately show ?thesis by simp
  qed
qed

lemma up_inv_append:
  assumes "heap_ok h"
  shows "up_inv (h @ [key]) (length (h @ [key]) - 1)"
  unfolding up_inv_def
proof (intro conjI allI impI)
  show "length (h @ [key]) - 1 < length (h @ [key])" by simp
next
  fix j assume j: "0 < j \<and> j < length (h @ [key]) \<and> j \<noteq> length (h @ [key]) - 1"
  then have jl: "j < length h" by simp
  moreover have "(j - 1) div 2 < length h" using jl by linarith
  ultimately show "(h @ [key]) ! ((j - 1) div 2) \<le> (h @ [key]) ! j"
    using assms j by (simp add: nth_append heap_ok_iff)
next
  fix j assume "0 < length (h @ [key]) - 1"
    and j: "0 < j \<and> j < length (h @ [key]) \<and> (j - 1) div 2 = length (h @ [key]) - 1"
  then have "(j - 1) div 2 < j" by linarith
  with j have False by simp
  then show "(h @ [key]) ! ((length (h @ [key]) - 1 - 1) div 2) \<le> (h @ [key]) ! j" ..
qed

lemma insert_heap_correct:
  assumes "heap_ok (heap self)"
  shows "\<exists>self'. insert_heap self key = Inr self' \<and> heap_ok (heap self')
           \<and> mset (heap self') = add_mset key (mset (heap self))"
proof -
  from sift_up_correct [OF up_inv_append [OF assms, of key]]
  obtain h' where "sift_up (heap self @ [key]) (length (heap self @ [key]) - 1) = Inr h'"
    and "heap_ok h'" and "mset h' = mset (heap self @ [key])"
    by blast
  then show ?thesis by (simp add: insert_heap_def Let_def)
qed

lemma down_inv_swap:
  assumes inv: "down_inv h i"
    and s: "0 < s" "s < length h" "(s - 1) div 2 = i"
    and lt: "h ! s < h ! i"
    and least: "\<And>c. 0 < c \<Longrightarrow> c < length h \<Longrightarrow> (c - 1) div 2 = i \<Longrightarrow> h ! s \<le> h ! c"
  shows "down_inv (h[i := h ! s, s := h ! i]) s"
proof -
  define h2 where "h2 = h[i := h ! s, s := h ! i]"
  have par_lt: "(j - 1) div 2 < j" if "0 < j" for j :: nat using that by linarith
  have i_s: "i < s" using par_lt [OF s(1)] s(3) by simp
  have len: "length h2 = length h" by (simp add: h2_def)
  have nth2: "h2 ! k = (if k = s then h ! i else if k = i then h ! s else h ! k)"
    if "k < length h" for k
    using that i_s by (simp add: h2_def nth_list_update)
  have ok: "h ! ((j - 1) div 2) \<le> h ! j" if "0 < j" "j < length h" "(j - 1) div 2 \<noteq> i" for j
    using inv that by (simp add: down_inv_def)
  have gp: "h ! ((i - 1) div 2) \<le> h ! j"
    if "0 < i" "0 < j" "j < length h" "(j - 1) div 2 = i" for j
    using inv that by (simp add: down_inv_def)
  have A: "h2 ! ((j - 1) div 2) \<le> h2 ! j"
    if j: "0 < j" "j < length h" "(j - 1) div 2 \<noteq> s" for j
  proof -
    have pj: "(j - 1) div 2 < length h" using par_lt [OF j(1)] j(2) by simp
    show ?thesis
    proof (cases "(j - 1) div 2 = i")
      case True
      then have pv: "h2 ! ((j - 1) div 2) = h ! s" using nth2 [of i] i_s s(2) by simp
      have ji: "j \<noteq> i" using True par_lt [OF j(1)] by auto
      show ?thesis
      proof (cases "j = s")
        case True
        then show ?thesis using pv nth2 [of s] s(2) lt by simp
      next
        case False
        then have "h2 ! j = h ! j" using nth2 [OF j(2)] ji by simp
        then show ?thesis using pv least [OF j(1) j(2) True] by simp
      qed
    next
      case False
      then have pv: "h2 ! ((j - 1) div 2) = h ! ((j - 1) div 2)"
        using nth2 [OF pj] j(3) by simp
      have js: "j \<noteq> s" using False s(3) by auto
      show ?thesis
      proof (cases "j = i")
        case True
        then have "h2 ! j = h ! s" using nth2 [of i] i_s s(2) by simp
        moreover have "h ! ((i - 1) div 2) \<le> h ! s"
          using gp [of s] s True j(1) by simp
        ultimately show ?thesis using pv True by simp
      next
        case ji: False
        then have "h2 ! j = h ! j" using nth2 [OF j(2)] js by simp
        then show ?thesis using pv ok [OF j(1) j(2) False] by simp
      qed
    qed
  qed
  have B: "h2 ! ((s - 1) div 2) \<le> h2 ! j"
    if j: "0 < j" "j < length h" "(j - 1) div 2 = s" for j
  proof -
    have sj: "s < j" using par_lt [OF j(1)] j(3) by simp
    then have "h2 ! j = h ! j" using nth2 [OF j(2)] i_s by simp
    moreover have "h2 ! ((s - 1) div 2) = h ! s" using nth2 [of i] i_s s(2) s(3) by simp
    moreover have "h ! ((j - 1) div 2) \<le> h ! j"
      using ok [OF j(1) j(2)] j(3) i_s by simp
    ultimately show ?thesis using j(3) by simp
  qed
  have "down_inv h2 s"
    unfolding down_inv_def len using A B by auto
  then show ?thesis by (simp add: h2_def)
qed

lemma child_cases:
  "0 < j \<Longrightarrow> (j - 1) div 2 = i \<longleftrightarrow> j = leftChild i \<or> j = rightChild i"
  unfolding leftChild_def rightChild_def by linarith

lemma bubble_down_correct:
  "down_inv h i \<Longrightarrow> hsize = length h \<Longrightarrow>
     heap_ok (bubble_down h hsize i) \<and> mset (bubble_down h hsize i) = mset h"
proof (induction h hsize i rule: bubble_down.induct)
  case (1 h hsize i)
  define l where "l = leftChild i"
  define r where "r = rightChild i"
  define s1 where "s1 = (if l < hsize \<and> h ! l < h ! i then l else i)"
  define s where "s = (if r < hsize \<and> h ! r < h ! s1 then r else s1)"
  have n: "hsize = length h" by fact
  have unf: "bubble_down h hsize i =
      (if s \<noteq> i then bubble_down (h[i := h ! s, s := h ! i]) hsize s else h)"
    by (subst bubble_down.simps) (simp only: Let_def l_def r_def s1_def s_def)
  have lr: "i < l" "i < r" "l \<noteq> r" by (simp_all add: l_def r_def leftChild_def rightChild_def)
  show ?case
  proof (cases "s = i")
    case True
    have nl: "\<not> (l < hsize \<and> h ! l < h ! i)"
      using True lr by (auto simp: s_def s1_def split: if_splits)
    have s1: "s1 = i" using nl unfolding s1_def by (rule if_not_P)
    have nr: "\<not> (r < hsize \<and> h ! r < h ! i)"
      using True lr s1 by (auto simp: s_def split: if_splits)
    have "heap_ok h"
      unfolding heap_ok_iff
    proof (intro allI impI)
      fix j assume j: "0 < j \<and> j < length h"
      show "h ! ((j - 1) div 2) \<le> h ! j"
      proof (cases "(j - 1) div 2 = i")
        case True
        then have "j = l \<or> j = r" using j child_cases [of j i] by (simp add: l_def r_def)
        then show ?thesis using nl nr j n True by auto
      next
        case False
        then show ?thesis using "1.prems"(1) j by (simp add: down_inv_def)
      qed
    qed
    then show ?thesis using unf True by simp
  next
    case False
    have s_child: "s = l \<or> s = r" using False by (auto simp: s_def s1_def split: if_splits)
    have sl: "s < length h" using False n by (auto simp: s_def s1_def split: if_splits)
    have s0: "0 < s" using s_child lr by auto
    have sp: "(s - 1) div 2 = i" using s_child child_cases [OF s0, of i] by (simp add: l_def r_def)
    have lt: "h ! s < h ! i" using False by (auto simp: s_def s1_def split: if_splits)
    have least: "h ! s \<le> h ! c" if c: "0 < c" "c < length h" "(c - 1) div 2 = i" for c
    proof -
      have "c = l \<or> c = r" using child_cases [OF c(1), of i] c(3) by (simp add: l_def r_def)
      then show ?thesis using c(2) n False by (auto simp: s_def s1_def split: if_splits)
    qed
    have il: "i < length h" using sl s_child lr by auto
    let ?h2 = "h[i := h ! s, s := h ! i]"
    have inv2: "down_inv ?h2 s"
      using "1.prems"(1) s0 sl sp lt least by (rule down_inv_swap)
    have len2: "hsize = length ?h2" using n by simp
    have "heap_ok (bubble_down ?h2 hsize s) \<and> mset (bubble_down ?h2 hsize s) = mset ?h2"
      using False inv2 len2 unfolding s_def s1_def l_def r_def
      by (rule "1.IH" [OF refl refl refl refl refl])
    moreover have "mset ?h2 = mset h" using il sl by (simp add: mset_swap)
    ultimately show ?thesis using unf False by simp
  qed
qed

lemma bubble_down_mset:
  "hsize = length h \<Longrightarrow> mset (bubble_down h hsize i) = mset h"
proof (induction h hsize i rule: bubble_down.induct)
  case (1 h hsize i)
  define l where "l = leftChild i"
  define r where "r = rightChild i"
  define s1 where "s1 = (if l < hsize \<and> h ! l < h ! i then l else i)"
  define s where "s = (if r < hsize \<and> h ! r < h ! s1 then r else s1)"
  have n: "hsize = length h" by fact
  have unf: "bubble_down h hsize i =
      (if s \<noteq> i then bubble_down (h[i := h ! s, s := h ! i]) hsize s else h)"
    by (subst bubble_down.simps) (simp only: Let_def l_def r_def s1_def s_def)
  have lr: "i < l" "i < r" by (simp_all add: l_def r_def leftChild_def rightChild_def)
  show ?case
  proof (cases "s = i")
    case True
    then show ?thesis using unf by simp
  next
    case False
    have sl: "s < length h" using False n by (auto simp: s_def s1_def split: if_splits)
    have "s = l \<or> s = r" using False by (auto simp: s_def s1_def split: if_splits)
    then have il: "i < length h" using sl lr by auto
    let ?h2 = "h[i := h ! s, s := h ! i]"
    have len2: "hsize = length ?h2" using n by simp
    have "mset (bubble_down ?h2 hsize s) = mset ?h2"
      using False len2 unfolding s_def s1_def l_def r_def
      by (rule "1.IH" [OF refl refl refl refl refl])
    moreover have "mset ?h2 = mset h" using il sl by (simp add: mset_swap)
    ultimately show ?thesis using unf False by simp
  qed
qed

lemma heap_ok_root_le:
  "heap_ok h \<Longrightarrow> i < length h \<Longrightarrow> h ! 0 \<le> h ! i"
proof (induction i rule: less_induct)
  case (less i)
  show ?case
  proof (cases "i = 0")
    case True
    then show ?thesis by simp
  next
    case False
    then have p: "(i - 1) div 2 < i" by linarith
    then have "h ! 0 \<le> h ! ((i - 1) div 2)" using less by simp
    moreover have "h ! ((i - 1) div 2) \<le> h ! i"
      using less.prems False by (simp add: heap_ok_iff)
    ultimately show ?thesis by simp
  qed
qed

lemma heap_ok_root_Min:
  assumes "heap_ok h" "h \<noteq> []"
  shows "h ! 0 = Min (set h)"
proof (rule sym, rule Min_eqI)
  show "finite (set h)" by simp
  show "h ! 0 \<in> set h" using assms(2) by simp
  fix y assume "y \<in> set h"
  then obtain i where "i < length h" "h ! i = y" by (auto simp: in_set_conv_nth)
  then show "h ! 0 \<le> y" using heap_ok_root_le [OF assms(1)] by auto
qed

lemma mset_move_last:
  assumes "2 \<le> length h"
  shows "mset ((butlast h)[0 := last h]) = mset h - {#h ! 0#}"
proof -
  obtain x xs where h: "h = x # xs" using assms by (cases h) auto
  have xs: "xs \<noteq> []" using assms h by auto
  have "(butlast h)[0 := last h] = last xs # butlast xs"
    using xs by (simp add: h)
  then have "mset ((butlast h)[0 := last h]) = mset (butlast xs @ [last xs])"
    by simp
  also have "\<dots> = mset xs" by (simp only: append_butlast_last_id [OF xs])
  finally show ?thesis by (simp add: h)
qed

lemma down_inv_move_last:
  assumes ok: "heap_ok h" and len: "2 \<le> length h"
  shows "down_inv ((butlast h)[0 := last h]) 0"
  unfolding down_inv_def
proof (intro conjI allI impI)
  fix j
  assume j: "0 < j \<and> j < length ((butlast h)[0 := last h]) \<and> (j - 1) div 2 \<noteq> 0"
  then have jl: "j < length h - 1" by simp
  have pj: "(j - 1) div 2 < j" using j by linarith
  have "(butlast h)[0 := last h] ! j = h ! j"
    using j jl by (simp add: nth_butlast)
  moreover have "(butlast h)[0 := last h] ! ((j - 1) div 2) = h ! ((j - 1) div 2)"
    using j jl pj by (simp add: nth_butlast)
  moreover have "j < length h" using jl by simp
  then have "h ! ((j - 1) div 2) \<le> h ! j"
    using ok j by (simp add: heap_ok_iff)
  ultimately show "(butlast h)[0 := last h] ! ((j - 1) div 2) \<le> (butlast h)[0 := last h] ! j"
    by simp
qed simp

lemma extract_min_empty: "heap self = [] \<Longrightarrow> extract_min self = (None, self)"
  by (simp add: extract_min_def)

lemma extract_min_nonempty:
  assumes "heap self \<noteq> []"
  shows "\<exists>self'. extract_min self = (Some (heap self ! 0), self')
           \<and> mset (heap self') = mset (heap self) - {#heap self ! 0#}"
proof (cases "length (heap self) = 1")
  case True
  then obtain x where "heap self = [x]" by (cases "heap self") auto
  then show ?thesis by (simp add: extract_min_def)
next
  case False
  moreover have "length (heap self) \<noteq> 0" using assms by simp
  ultimately have len: "2 \<le> length (heap self)" by linarith
  let ?h = "(butlast (heap self))[0 := last (heap self)]"
  have "extract_min self = (Some (heap self ! 0), self\<lparr>heap := bubble_down ?h (length ?h) 0\<rparr>)"
    using assms False by (simp add: extract_min_def Let_def)
  moreover have "mset (bubble_down ?h (length ?h) 0) = mset (heap self) - {#heap self ! 0#}"
    using bubble_down_mset [OF refl, of ?h 0] mset_move_last [OF len] by simp
  ultimately show ?thesis by simp
qed

lemma extract_min_heap_ok:
  assumes ok: "heap_ok (heap self)"
  shows "heap_ok (heap (snd (extract_min self)))"
proof (cases "length (heap self) \<le> 1")
  case True
  then have "heap self = [] \<or> (\<exists>x. heap self = [x])"
    by (cases "heap self") auto
  then show ?thesis using ok by (auto simp: extract_min_def heap_ok_iff)
next
  case False
  then have len: "2 \<le> length (heap self)" by simp
  let ?h = "(butlast (heap self))[0 := last (heap self)]"
  have "extract_min self = (Some (heap self ! 0), self\<lparr>heap := bubble_down ?h (length ?h) 0\<rparr>)"
    using False by (auto simp: extract_min_def Let_def)
  moreover have "heap_ok (bubble_down ?h (length ?h) 0)"
    using bubble_down_correct [OF down_inv_move_last [OF ok len] refl] by simp
  ultimately show ?thesis by simp
qed

lemma insert_all_correct:
  "heap_ok (heap self) \<Longrightarrow>
     \<exists>self'. insert_all self xs = Inr self' \<and> heap_ok (heap self')
       \<and> mset (heap self') = mset (heap self) + mset xs"
proof (induction xs arbitrary: self)
  case Nil
  then show ?case by simp
next
  case (Cons x xs)
  from insert_heap_correct [OF Cons.prems, of x] obtain s1 where
    s1: "insert_heap self x = Inr s1" "heap_ok (heap s1)"
      "mset (heap s1) = add_mset x (mset (heap self))"
    by blast
  from Cons.IH [OF s1(2)] obtain s2 where
    s2: "insert_all s1 xs = Inr s2" "heap_ok (heap s2)"
      "mset (heap s2) = mset (heap s1) + mset xs"
    by blast
  show ?case using s1 s2 by simp
qed

lemma extract_n_sorted:
  "heap_ok (heap self) \<Longrightarrow> n = length (heap self) \<Longrightarrow>
     \<exists>ys self'. extract_n n self = (map Some ys, self') \<and> sorted ys
       \<and> mset ys = mset (heap self) \<and> heap self' = []"
proof (induction n arbitrary: self)
  case 0
  then show ?case by simp
next
  case (Suc n)
  then have ne: "heap self \<noteq> []" by auto
  define m where "m = heap self ! 0"
  from extract_min_nonempty [OF ne] obtain s1 where
    e: "extract_min self = (Some m, s1)"
    and ms: "mset (heap s1) = mset (heap self) - {#m#}"
    unfolding m_def by blast
  have mh: "m \<in># mset (heap self)" using ne by (simp add: m_def)
  have ok1: "heap_ok (heap s1)" using extract_min_heap_ok [OF Suc.prems(1)] e by simp
  have "size (mset (heap s1)) = size (mset (heap self)) - 1"
    using ms mh by (simp add: size_Diff_singleton)
  then have len1: "n = length (heap s1)" using Suc.prems(2) by simp
  from Suc.IH [OF ok1 len1] obtain ys s2 where
    r: "extract_n n s1 = (map Some ys, s2)" and so: "sorted ys"
    and my: "mset ys = mset (heap s1)" and em: "heap s2 = []"
    by blast
  have "extract_n (Suc n) self = (map Some (m # ys), s2)" using e r by simp
  moreover have "\<forall>y \<in> set ys. m \<le> y"
  proof
    fix y assume "y \<in> set ys"
    then have "y \<in># mset (heap s1)" using my by (metis set_mset_mset)
    then have "y \<in> set (heap self)" using ms by (metis in_diffD set_mset_mset)
    then obtain i where "i < length (heap self)" "heap self ! i = y"
      by (auto simp: in_set_conv_nth)
    then show "m \<le> y" using heap_ok_root_le [OF Suc.prems(1)] by (auto simp: m_def)
  qed
  then have "sorted (m # ys)" using so by simp
  moreover have "mset (m # ys) = mset (heap self)" using my ms mh by simp
  ultimately show ?case using em by blast
qed

text \<open>
  Claim C1. For every finite sequence \<open>xs\<close> of integers, inserting its elements into
  a fresh heap raises no exception, and \<open>length xs\<close> calls of \<open>extract_min\<close> then
  return the inserted values, each as often as it was inserted, in non-decreasing
  order.
\<close>

theorem heap_sort:
  "\<exists>self ys self'. insert_all MinHeap_init xs = Inr self
     \<and> extract_n (length xs) self = (map Some ys, self')
     \<and> sorted ys \<and> mset ys = mset xs"
proof -
  have "heap_ok (heap MinHeap_init)" by (simp add: MinHeap_init_def heap_ok_iff)
  from insert_all_correct [OF this, of xs] obtain self where
    s: "insert_all MinHeap_init xs = Inr self" "heap_ok (heap self)"
      "mset (heap self) = mset xs"
    by (auto simp: MinHeap_init_def)
  have "length xs = length (heap self)" using s(3) by (metis size_mset)
  from extract_n_sorted [OF s(2) this] s(1) s(3) show ?thesis by auto
qed

theorem heap_sort_witness:
  "\<exists>self self'. insert_all MinHeap_init [10, 4, 20, 0, 2] = Inr self
     \<and> extract_n 5 self = ([Some 0, Some 2, Some 4, Some 10, Some 20], self')"
proof -
  have len: "length [10, 4, 20, 0, 2 :: int] = 5" by simp
  from heap_sort [of "[10, 4, 20, 0, 2]", unfolded len] obtain self ys self' where
    i: "insert_all MinHeap_init [10, 4, 20, 0, 2] = Inr self"
    and e: "extract_n 5 self = (map Some ys, self')"
    and s: "sorted ys" and m: "mset ys = mset [10, 4, 20, 0, 2]"
    by blast
  from m s have "sort [10, 4, 20, 0, 2] = ys" by (rule properties_for_sort)
  then have "ys = [0, 2, 4, 10, 20]" by simp
  with i e show ?thesis by simp
qed

text \<open>
  Claim C2. On an empty heap \<open>extract_min\<close> returns \<open>None\<close> and leaves the heap as it
  is. On a non-empty heap it returns the element at the root and removes one copy of it
  from the heap. In a heap with the heap property the root is the minimum, and the heap
  property holds again after the call.
\<close>

theorem extract_min_spec:
  "(heap self = [] \<longrightarrow> extract_min self = (None, self))
   \<and> (heap self \<noteq> [] \<longrightarrow>
        (\<exists>self'. extract_min self = (Some (heap self ! 0), self')
           \<and> mset (heap self') = mset (heap self) - {#heap self ! 0#}))
   \<and> (heap self \<noteq> [] \<and> heap_ok (heap self) \<longrightarrow>
        heap self ! 0 = Min (set (heap self)) \<and> heap_ok (heap (snd (extract_min self))))"
  using extract_min_empty extract_min_nonempty heap_ok_root_Min extract_min_heap_ok
  by blast

theorem extract_min_spec_witness:
  "extract_min \<lparr>heap = []\<rparr> = (None, \<lparr>heap = []\<rparr>)
   \<and> (\<exists>self'. extract_min \<lparr>heap = [0, 2, 20, 10, 4]\<rparr> = (Some 0, self')
         \<and> mset (heap self') = {#2, 20, 10, 4#})
   \<and> Min (set [0, 2, 20, 10, 4 :: int]) = 0
   \<and> heap_ok (heap (snd (extract_min \<lparr>heap = [0, 2, 20, 10, 4]\<rparr>)))"
proof -
  have ok: "heap_ok [0, 2, 20, 10, 4]"
    by code_simp
  show ?thesis
    using extract_min_spec [of "\<lparr>heap = []\<rparr>"]
      extract_min_spec [of "\<lparr>heap = [0, 2, 20, 10, 4]\<rparr>"] ok
    by simp
qed

end
